theory Spec2Isabelle
  imports Main "HOL-Library.Multiset"
begin

section \<open>Strings\<close>

text \<open>
  The project file is read with the Latin-1 codec, so every character of a name is one
  code point below 256 and a \<^typ>\<open>char\<close> stands for it. On that range Python's
  \<^verbatim>\<open>str.lower\<close> works character by character: it moves \<^verbatim>\<open>A-Z\<close> and the
  accented capitals \<^verbatim>\<open>U+00C0-U+00DE\<close> (the multiplication sign \<^verbatim>\<open>U+00D7\<close> apart)
  up by 32 and leaves every other character alone.
\<close>

definition lower_char :: "char \<Rightarrow> char" where
  "lower_char c = (let n = (of_char c :: nat) in
     if (65 \<le> n \<and> n \<le> 90) \<or> (192 \<le> n \<and> n \<le> 222 \<and> n \<noteq> 215)
     then char_of (n + 32) else c)"

definition lower :: "string \<Rightarrow> string" where
  "lower s = map lower_char s"

text \<open>Decimal rendering of a counter, as an f-string does with \<^verbatim>\<open>{counter}\<close>.\<close>

definition digit :: "nat \<Rightarrow> char" where
  "digit d = ''0123456789'' ! d"

fun str_nat :: "nat \<Rightarrow> string" where
  "str_nat n = (if n < 10 then [digit n] else str_nat (n div 10) @ [digit (n mod 10)])"

declare str_nat.simps [simp del]

section \<open>Data model (models/components.py)\<close>

text \<open>
  A component is a mutable Python object. The class defines no \<^verbatim>\<open>__eq__\<close>, so
  \<^verbatim>\<open>==\<close>, \<^verbatim>\<open>!=\<close> and hashing of components go by object identity; the field
  \<open>oid\<close> is that identity. The component type is the plain string the source stores.
\<close>

record VB6Component =
  oid :: nat
  name :: string
  filename :: string
  component_type :: string
  dependencies :: "string list"
  content :: string

record VB6Project =
  project_name :: string
  project_path :: string
  project_filename :: string
  components :: "VB6Component list"

text \<open>The constructor \<^verbatim>\<open>VB6Project()\<close>.\<close>

definition new_project :: VB6Project where
  "new_project = \<lparr>project_name = [], project_path = [], project_filename = [], components = []\<rparr>"

text \<open>An identity no component of the project has: what a newly allocated object gets.\<close>

definition fresh_oid :: "VB6Project \<Rightarrow> nat" where
  "fresh_oid project = Suc (fold max (map oid (components project)) 0)"

definition new_component :: "nat \<Rightarrow> string \<Rightarrow> string \<Rightarrow> string \<Rightarrow> VB6Component" where
  "new_component i nm fn ty =
     \<lparr>oid = i, name = nm, filename = fn, component_type = ty, dependencies = [], content = []\<rparr>"

definition add_component :: "VB6Project \<Rightarrow> string \<Rightarrow> string \<Rightarrow> string \<Rightarrow> VB6Project" where
  "add_component project nm fn ty =
     project\<lparr>components := components project @ [new_component (fresh_oid project) nm fn ty]\<rparr>"

fun find_in :: "VB6Component list \<Rightarrow> string \<Rightarrow> VB6Component option" where
  "find_in [] nm = None"
| "find_in (component # rest) nm =
     (if lower (name component) = lower nm then Some component else find_in rest nm)"

definition find_component_by_name :: "VB6Project \<Rightarrow> string \<Rightarrow> VB6Component option" where
  "find_component_by_name project nm = find_in (components project) nm"

text \<open>
  Object identity in a project: two entries of \<open>components\<close> with the same identity are
  the same object, so they agree on every field.
\<close>

definition oid_consistent :: "VB6Project \<Rightarrow> bool" where
  "oid_consistent project = inj_on oid (set (components project))"

section \<open>Graph queries (utils/helpers.py)\<close>

definition count_components_by_type :: "VB6Project \<Rightarrow> string \<Rightarrow> nat" where
  "count_components_by_type project ty =
     length (filter (\<lambda>component. component_type component = ty) (components project))"

definition has_dependents :: "VB6Project \<Rightarrow> VB6Component \<Rightarrow> bool" where
  "has_dependents project component =
     (\<exists>other \<in> set (components project).
        oid other \<noteq> oid component \<and> name component \<in> set (dependencies other))"

definition get_dependents :: "VB6Project \<Rightarrow> VB6Component \<Rightarrow> VB6Component list" where
  "get_dependents project component =
     filter (\<lambda>other. name component \<in> set (dependencies other)) (components project)"

section \<open>Diagram builders (generators/diagrams)\<close>

text \<open>
  Each builder writes node lines and then edge lines to the report. The model keeps what is
  written as data: a node is its identifier with the component it stands for, an edge
  is the pair of identifiers on a \<^verbatim>\<open>source --> target\<close> line. The label text and the
  fixed style lines are left out.
\<close>

record diagram =
  nodes :: "(string \<times> VB6Component) list"
  edges :: "(string \<times> string) list"

text \<open>
  Python does not fix the order in which a \<^verbatim>\<open>set\<close> is iterated. The builders get that
  order as a parameter: \<open>set_iter xs\<close> is the sequence a loop over \<^verbatim>\<open>set(xs)\<close> yields for
  a list of strings, \<open>obj_iter xs\<close> the same for a set filled with the objects \<open>xs\<close>.
  \<open>set_iteration\<close> says what the language does promise of such an order: every element
  once.
\<close>

definition set_iteration :: "('a list \<Rightarrow> 'a list) \<Rightarrow> bool" where
  "set_iteration it = (\<forall>xs. distinct (it xs) \<and> set (it xs) = set xs)"

text \<open>The guarded write shared by all edge loops; the state is \<open>edges_added\<close> and the lines written.\<close>

definition edge_key :: "string \<Rightarrow> string \<Rightarrow> string" where
  "edge_key source_id target_id = source_id @ ''->'' @ target_id"

type_synonym edge_state = "string set \<times> (string \<times> string) list"

definition write_edge :: "string \<Rightarrow> string \<Rightarrow> edge_state \<Rightarrow> edge_state" where
  "write_edge source_id target_id st =
     (if edge_key source_id target_id \<notin> fst st
      then (insert (edge_key source_id target_id) (fst st), snd st @ [(source_id, target_id)])
      else st)"

text \<open>
  One round of a node loop: \<^verbatim>\<open>node_ids[component.name] = f"{prefix}{i}"\<close> and the node
  line. The state is the dictionary \<open>node_ids\<close> and the nodes written. The related
  components of the business-logic view are only added under a name not yet in \<open>node_ids\<close>.
\<close>

type_synonym node_state = "(string \<rightharpoonup> string) \<times> (string \<times> VB6Component) list"

definition add_node :: "string \<Rightarrow> nat \<times> VB6Component \<Rightarrow> node_state \<Rightarrow> node_state" where
  "add_node prefix ic st =
     (let node_id = prefix @ str_nat (fst ic)
      in ((fst st)(name (snd ic) \<mapsto> node_id), snd st @ [(node_id, snd ic)]))"

definition add_related_node :: "nat \<times> VB6Component \<Rightarrow> node_state \<Rightarrow> node_state" where
  "add_related_node ic st =
     (if fst st (name (snd ic)) = None then add_node ''related'' ic st else st)"

text \<open>
  The body of an edge loop for one source component:
  \<^verbatim>\<open>
  if component.name in node_ids:
      source_id = node_ids[component.name]
      for dep in set(component.dependencies):
          dep_comp = project.find_component_by_name(dep)
          if dep_comp and <wanted dep_comp> and dep_comp.name in node_ids:
              target_id = node_ids[dep_comp.name]
              <guarded write>
  \<close>
  The three builders differ in the test \<open>wanted\<close> only.
\<close>

definition dependency_edges ::
  "(string list \<Rightarrow> string list) \<Rightarrow> VB6Project \<Rightarrow> (string \<rightharpoonup> string)
     \<Rightarrow> (VB6Component \<Rightarrow> bool) \<Rightarrow> VB6Component \<Rightarrow> edge_state \<Rightarrow> edge_state" where
  "dependency_edges set_iter project node_ids wanted component st =
     (case node_ids (name component) of
        None \<Rightarrow> st
      | Some source_id \<Rightarrow>
          fold (\<lambda>dep st.
                  case find_component_by_name project dep of
                    None \<Rightarrow> st
                  | Some dep_comp \<Rightarrow>
                      (if wanted dep_comp
                       then (case node_ids (name dep_comp) of
                               None \<Rightarrow> st
                             | Some target_id \<Rightarrow> write_edge source_id target_id st)
                       else st))
               (set_iter (dependencies component)) st)"

subsection \<open>Core view (core_diagram.py)\<close>

definition MAX_COMPONENTS :: nat where
  "MAX_COMPONENTS = 20"

definition component_connections :: "VB6Project \<Rightarrow> (VB6Component \<times> nat) list" where
  "component_connections project =
     map (\<lambda>comp. (comp, length (get_dependents project comp) + length (remdups (dependencies comp))))
         (components project)"

text \<open>
  \<^verbatim>\<open>component_connections.sort(key=lambda x: x[1], reverse=True)\<close>: Python's sort is
  stable, also with \<^verbatim>\<open>reverse=True\<close>, so this is a stable sort on the negated count.
\<close>

definition sort_connections :: "(VB6Component \<times> nat) list \<Rightarrow> (VB6Component \<times> nat) list" where
  "sort_connections conns = sort_key (\<lambda>x. - int (snd x)) conns"

text \<open>The sort followed by the slice \<^verbatim>\<open>[:k]\<close>; the source takes \<open>k = MAX_COMPONENTS\<close>.\<close>

definition most_connected :: "nat \<Rightarrow> (VB6Component \<times> nat) list \<Rightarrow> VB6Component list" where
  "most_connected k conns = map fst (take k (sort_connections conns))"

definition components_to_render :: "VB6Project \<Rightarrow> VB6Component list" where
  "components_to_render project = most_connected MAX_COMPONENTS (component_connections project)"

definition generate_core_architecture_diagram ::
  "(string list \<Rightarrow> string list) \<Rightarrow> VB6Project \<Rightarrow> diagram" where
  "generate_core_architecture_diagram set_iter project =
     (let comps = components_to_render project;
          ns = fold (add_node ''core'') (enumerate 0 comps) (Map.empty, []);
          es = fold (dependency_edges set_iter project (fst ns) (\<lambda>dep_comp. True)) comps ({}, [])
      in \<lparr>nodes = snd ns, edges = snd es\<rparr>)"

subsection \<open>Form-relationships view (form_diagram.py)\<close>

definition generate_form_relationships_diagram ::
  "(string list \<Rightarrow> string list) \<Rightarrow> VB6Project \<Rightarrow> diagram" where
  "generate_form_relationships_diagram set_iter project =
     (let forms = filter (\<lambda>comp. component_type comp = ''Form'') (components project);
          ns = fold (add_node ''form'') (enumerate 0 forms) (Map.empty, []);
          es = fold (dependency_edges set_iter project (fst ns)
                       (\<lambda>dep_comp. component_type dep_comp = ''Form'')) forms ({}, [])
      in \<lparr>nodes = snd ns, edges = snd es\<rparr>)"

subsection \<open>Business-logic view (class_diagram.py)\<close>

text \<open>
  What one class adds to the set \<open>related_components\<close>, in the order of the two inner
  loops: the components of another type it depends on, then those that depend on it.
\<close>

definition related_to ::
  "(string list \<Rightarrow> string list) \<Rightarrow> VB6Project \<Rightarrow> VB6Component \<Rightarrow> VB6Component list" where
  "related_to set_iter project cls =
     concat (map (\<lambda>dep. case find_component_by_name project dep of
                          None \<Rightarrow> []
                        | Some dep_comp \<Rightarrow>
                            if component_type dep_comp \<noteq> ''Class'' then [dep_comp] else [])
                 (set_iter (dependencies cls)))
     @ filter (\<lambda>comp. component_type comp \<noteq> ''Class'' \<and> name cls \<in> set (dependencies comp))
              (components project)"

definition generate_business_logic_diagram ::
  "(string list \<Rightarrow> string list) \<Rightarrow> (VB6Component list \<Rightarrow> VB6Component list)
     \<Rightarrow> VB6Project \<Rightarrow> diagram" where
  "generate_business_logic_diagram set_iter obj_iter project =
     (let classes = filter (\<lambda>comp. component_type comp = ''Class'') (components project);
          cns = fold (add_node ''class'') (enumerate 0 classes) (Map.empty, []);
          related_components = obj_iter (concat (map (related_to set_iter project) classes));
          ns = fold add_related_node (enumerate 0 related_components) cns;
          es1 = fold (dependency_edges set_iter project (fst ns) (\<lambda>dep_comp. True))
                  classes ({}, []);
          es2 = fold (dependency_edges set_iter project (fst ns)
                        (\<lambda>dep_comp. component_type dep_comp = ''Class'')) related_components es1
      in \<lparr>nodes = snd ns, edges = snd es2\<rparr>)"

text \<open>
  The identifiers of the primary nodes of a diagram (those drawn for a component of type
  Class) and of its secondary nodes (those drawn for a component of another type).
\<close>

definition primary_ids :: "diagram \<Rightarrow> string set" where
  "primary_ids d = set (map fst (filter (\<lambda>n. component_type (snd n) = ''Class'') (nodes d)))"

definition secondary_ids :: "diagram \<Rightarrow> string set" where
  "secondary_ids d = set (map fst (filter (\<lambda>n. component_type (snd n) \<noteq> ''Class'') (nodes d)))"

section \<open>Project file parser (parsers/vbp_parser.py)\<close>

subsection \<open>String operations used by the parser\<close>

text \<open>
  \<^verbatim>\<open>str.strip()\<close> removes the white space of \<^verbatim>\<open>str.isspace\<close> at both ends; below 256
  that is \<^verbatim>\<open>\t \n \v \f \r\<close>, \<^verbatim>\<open>U+001C-U+0020\<close>, \<^verbatim>\<open>U+0085\<close> and \<^verbatim>\<open>U+00A0\<close>.
\<close>

definition isspace :: "char \<Rightarrow> bool" where
  "isspace c = (let n = (of_char c :: nat) in
     (9 \<le> n \<and> n \<le> 13) \<or> (28 \<le> n \<and> n \<le> 32) \<or> n = 133 \<or> n = 160)"

definition strip :: "string \<Rightarrow> string" where
  "strip s = rev (dropWhile isspace (rev (dropWhile isspace s)))"

definition startswith :: "string \<Rightarrow> string \<Rightarrow> bool" where
  "startswith s p = (take (length p) s = p)"

definition endswith :: "string \<Rightarrow> string \<Rightarrow> bool" where
  "endswith s p = (length p \<le> length s \<and> drop (length s - length p) s = p)"

text \<open>\<^verbatim>\<open>s.split(sep)\<close> for a one-character separator: never an empty list.\<close>

fun split_on :: "char \<Rightarrow> string \<Rightarrow> string list" where
  "split_on sep [] = [[]]"
| "split_on sep (c # cs) =
     (if c = sep then [] # split_on sep cs
      else (c # hd (split_on sep cs)) # tl (split_on sep cs))"

text \<open>The removal of one pair of surrounding quotes, \<^verbatim>\<open>value[1:-1]\<close>, double or single.\<close>

definition unquote :: "string \<Rightarrow> string" where
  "unquote v =
     (if (startswith v [CHR 0x22] \<and> endswith v [CHR 0x22])
         \<or> (startswith v [CHR 0x27] \<and> endswith v [CHR 0x27])
      then butlast (tl v) else v)"

text \<open>
  \<^verbatim>\<open>os.path\<close> is the path module of the platform the tool runs on; the parser takes it as a
  parameter. \<open>posixpath\<close> is its POSIX instance.
\<close>

record path_module =
  basename :: "string \<Rightarrow> string"
  dirname :: "string \<Rightarrow> string"
  splitext :: "string \<Rightarrow> string \<times> string"

definition posix_basename :: "string \<Rightarrow> string" where
  "posix_basename p = rev (takeWhile (\<lambda>c. c \<noteq> CHR ''/'') (rev p))"

definition posix_dirname :: "string \<Rightarrow> string" where
  "posix_dirname p =
     (let head = rev (dropWhile (\<lambda>c. c \<noteq> CHR ''/'') (rev p))
      in if head \<noteq> [] \<and> (\<exists>c \<in> set head. c \<noteq> CHR ''/'')
         then rev (dropWhile (\<lambda>c. c = CHR ''/'') (rev head)) else head)"

definition posix_splitext :: "string \<Rightarrow> string \<times> string" where
  "posix_splitext p =
     (let base = posix_basename p;
          ext = rev (takeWhile (\<lambda>c. c \<noteq> CHR ''.'') (rev base));
          stem = take (length base - length ext - 1) base
      in if CHR ''.'' \<in> set base \<and> (\<exists>c \<in> set stem. c \<noteq> CHR ''.'')
         then (take (length p - length ext - 1) p, CHR ''.'' # ext) else (p, []))"

definition posixpath :: path_module where
  "posixpath = \<lparr>basename = posix_basename, dirname = posix_dirname, splitext = posix_splitext\<rparr>"

subsection \<open>\<open>add_component_from_line\<close>\<close>

text \<open>
  The loop over \<^verbatim>\<open>parts[1:]\<close>: the first part of the form \<^verbatim>\<open>=value\<close> (nothing but white
  space before the equals sign) names the component and ends the loop.
\<close>

fun name_from_parts :: "string list \<Rightarrow> string option" where
  "name_from_parts [] = None"
| "name_from_parts (part # parts) =
     (if CHR ''='' \<in> set part
      then (let key = takeWhile (\<lambda>c. c \<noteq> CHR ''='') part;
                v = tl (dropWhile (\<lambda>c. c \<noteq> CHR ''='') part)
            in if strip key = [] then Some (unquote (strip v)) else name_from_parts parts)
      else name_from_parts parts)"

text \<open>The candidate name \<^verbatim>\<open>f"{component_name}_{counter}"\<close>.\<close>

definition suffixed :: "string \<Rightarrow> nat \<Rightarrow> string" where
  "suffixed component_name counter = component_name @ ''_'' @ str_nat counter"

text \<open>
  The loop \<^verbatim>\<open>while project.find_component_by_name(f"{component_name}_{counter}"): counter += 1\<close>.
  It ends because the candidates are pairwise different, also after lowering, and the
  project holds finitely many names.
\<close>

lemma digit_inj: "a < 10 \<Longrightarrow> b < 10 \<Longrightarrow> digit a = digit b \<Longrightarrow> a = b"
proof -
  assume "a < 10" "b < 10" "digit a = digit b"
  moreover have "distinct ''0123456789''" by simp
  ultimately show "a = b"
    unfolding digit_def by (simp add: nth_eq_iff_index_eq)
qed

lemma str_nat_not_Nil: "str_nat n \<noteq> []"
  by (subst str_nat.simps) simp

lemma str_nat_inj: "str_nat n = str_nat m \<Longrightarrow> n = m"
proof (induction n arbitrary: m rule: str_nat.induct)
  case (1 n)
  show ?case
  proof (cases "n < 10")
    case True
    then have n: "str_nat n = [digit n]" by (subst str_nat.simps) simp
    show ?thesis
    proof (cases "m < 10")
      case m: True
      then have "str_nat m = [digit m]" by (subst str_nat.simps) simp
      with n "1.prems" True m show ?thesis by (auto dest: digit_inj)
    next
      case False
      then have "str_nat m = str_nat (m div 10) @ [digit (m mod 10)]"
        by (subst str_nat.simps) simp
      with n "1.prems" str_nat_not_Nil [of "m div 10"] show ?thesis by simp
    qed
  next
    case False
    then have n: "str_nat n = str_nat (n div 10) @ [digit (n mod 10)]"
      by (subst str_nat.simps) simp
    show ?thesis
    proof (cases "m < 10")
      case True
      then have "str_nat m = [digit m]" by (subst str_nat.simps) simp
      with n "1.prems" str_nat_not_Nil [of "n div 10"] show ?thesis by simp
    next
      case m: False
      then have "str_nat m = str_nat (m div 10) @ [digit (m mod 10)]"
        by (subst str_nat.simps) simp
      with n "1.prems" have eq: "str_nat (n div 10) = str_nat (m div 10)"
        and d: "digit (n mod 10) = digit (m mod 10)" by simp_all
      from "1.IH" [OF False eq] have "n div 10 = m div 10" .
      moreover have "n mod 10 = m mod 10" by (rule digit_inj [OF _ _ d]) simp_all
      ultimately show ?thesis by (metis div_mult_mod_eq)
    qed
  qed
qed

lemma lower_digit: "d < 10 \<Longrightarrow> lower_char (digit d) = digit d"
proof -
  assume "d < 10"
  then have "d \<in> {0, 1, 2, 3, 4, 5, 6, 7, 8, 9}" by auto
  then show ?thesis
    by (auto simp: digit_def lower_char_def)
qed

lemma lower_str_nat: "lower (str_nat n) = str_nat n"
proof (induction n rule: str_nat.induct)
  case (1 n)
  show ?case
  proof (cases "n < 10")
    case True
    then show ?thesis by (subst (1 2) str_nat.simps) (simp add: lower_def lower_digit)
  next
    case False
    with "1.IH" show ?thesis
      by (subst (1 2) str_nat.simps) (simp add: lower_def lower_digit)
  qed
qed

lemma lower_suffixed_inj: "inj (\<lambda>k. lower (suffixed nm k))"
proof (rule injI)
  fix a b
  assume "lower (suffixed nm a) = lower (suffixed nm b)"
  then have "lower (str_nat a) = lower (str_nat b)"
    by (simp add: suffixed_def lower_def)
  then show "a = b" by (simp add: lower_str_nat str_nat_inj)
qed

lemma find_in_None: "find_in cs nm = None \<longleftrightarrow> lower nm \<notin> (\<lambda>c. lower (name c)) ` set cs"
  by (induction cs) auto

lemma taken_counters_finite:
  "finite {k. find_component_by_name project (suffixed nm k) \<noteq> None}"
proof -
  have "{k. find_component_by_name project (suffixed nm k) \<noteq> None}
      = (\<lambda>k. lower (suffixed nm k)) -` ((\<lambda>c. lower (name c)) ` set (components project))"
    by (auto simp: find_component_by_name_def find_in_None)
  then show ?thesis
    by (simp add: finite_vimageI lower_suffixed_inj)
qed
function free_counter :: "VB6Project \<Rightarrow> string \<Rightarrow> nat \<Rightarrow> nat" where
  "free_counter project component_name counter =
     (if find_component_by_name project (suffixed component_name counter) \<noteq> None
      then free_counter project component_name (counter + 1) else counter)"
  by pat_completeness auto
termination
proof (relation "measure (\<lambda>(project, nm, counter).
          card {k. counter \<le> k \<and> find_component_by_name project (suffixed nm k) \<noteq> None})")
  show "wf (measure (\<lambda>(project, nm, counter).
          card {k. counter \<le> k \<and> find_component_by_name project (suffixed nm k) \<noteq> None}))"
    by simp
next
  fix project :: VB6Project and component_name :: string and counter :: nat
  assume taken: "find_component_by_name project (suffixed component_name counter) \<noteq> None"
  let ?T = "\<lambda>c. {k. c \<le> k \<and> find_component_by_name project (suffixed component_name k) \<noteq> None}"
  have "finite (?T counter)"
    by (rule finite_subset [OF _ taken_counters_finite [of project component_name]]) auto
  moreover have "?T (counter + 1) \<subset> ?T counter"
    using taken by (auto simp: Suc_le_eq)
  ultimately have "card (?T (counter + 1)) < card (?T counter)"
    by (rule psubset_card_mono)
  then show "((project, component_name, counter + 1), (project, component_name, counter))
      \<in> measure (\<lambda>(project, nm, counter).
          card {k. counter \<le> k \<and> find_component_by_name project (suffixed nm k) \<noteq> None})"
    by simp
qed

declare free_counter.simps [simp del]

text \<open>The name under which a component is registered: the name itself if it is free.\<close>

definition unique_name :: "VB6Project \<Rightarrow> string \<Rightarrow> string" where
  "unique_name project component_name =
     (if find_component_by_name project component_name \<noteq> None
      then suffixed component_name (free_counter project component_name 1)
      else component_name)"

text \<open>The file name and the component name read from the text after \<^verbatim>\<open>Form=\<close>, \<^verbatim>\<open>Module=\<close>, ...\<close>

definition line_filename :: "string \<Rightarrow> string" where
  "line_filename file_info = strip (hd (split_on CHR '';'' file_info))"

definition line_component_name :: "path_module \<Rightarrow> string \<Rightarrow> string" where
  "line_component_name os_path file_info =
     (case name_from_parts (tl (split_on CHR '';'' file_info)) of
        Some v \<Rightarrow> v
      | None \<Rightarrow> fst (splitext os_path (basename os_path (line_filename file_info))))"

text \<open>
  The function returns the flag; the project is updated in place, so the model returns
  both. No statement of the \<^verbatim>\<open>try\<close> block can raise.
\<close>

definition add_component_from_line ::
  "path_module \<Rightarrow> VB6Project \<Rightarrow> string \<Rightarrow> string \<Rightarrow> VB6Project \<times> bool" where
  "add_component_from_line os_path project file_info ty =
     (if length (split_on CHR '';'' file_info) \<ge> 1
      then (add_component project
              (unique_name project (line_component_name os_path file_info))
              (line_filename file_info) ty, True)
      else (project, False))"

subsection \<open>\<open>parse_vbp_file\<close>\<close>

text \<open>
  One round of the loop over the lines of the file. The counts kept for the log are left
  out.
\<close>

definition parse_line :: "path_module \<Rightarrow> string \<Rightarrow> VB6Project \<Rightarrow> VB6Project" where
  "parse_line os_path raw project =
     (let line = strip raw in
      if line = [] then project
      else if startswith line ''Name='' then project\<lparr>project_name := unquote (strip (drop 5 line))\<rparr>
      else if startswith line ''Form='' then fst (add_component_from_line os_path project (drop 5 line) ''Form'')
      else if startswith line ''Module='' then fst (add_component_from_line os_path project (drop 7 line) ''Module'')
      else if startswith line ''Class='' then fst (add_component_from_line os_path project (drop 6 line) ''Class'')
      else if startswith line ''UserControl='' then fst (add_component_from_line os_path project (drop 12 line) ''UserControl'')
      else if startswith line ''PropertyPage='' then fst (add_component_from_line os_path project (drop 13 line) ''PropertyPage'')
      else if startswith line ''Designer='' then fst (add_component_from_line os_path project (drop 9 line) ''Designer'')
      else project)"

text \<open>
  The file is given as its lines, or \<open>None\<close> when it does not exist or cannot be opened
  (the function then returns \<^verbatim>\<open>None\<close>). Latin-1 decodes every byte, so no decoding error
  arises.
\<close>

definition parse_vbp_file :: "path_module \<Rightarrow> string \<Rightarrow> string list option \<Rightarrow> VB6Project option" where
  "parse_vbp_file os_path vbp_file_path file =
     (case file of
        None \<Rightarrow> None
      | Some lines \<Rightarrow>
          Some (fold (parse_line os_path) lines
                  (new_project\<lparr>project_filename := basename os_path vbp_file_path,
                               project_path := dirname os_path vbp_file_path\<rparr>)))"

section \<open>Reference scanner\<close>

text \<open>
  Modelled from the spec: the scanner (\<^verbatim>\<open>analyzers/dependency_analyzer.py\<close>, function
  \<^verbatim>\<open>analyze_dependencies\<close>) is imported by \<^verbatim>\<open>main.py\<close> and by the tests but is not among
  the sources. The definitions of this section follow section 4.1 of the specification.
\<close>

text \<open>
  Modelled from the spec: the characters of an identifier (letters, digits, underscore),
  for the match "as a whole identifier (not a substring of a longer identifier)".
\<close>

definition ident_char :: "char \<Rightarrow> bool" where
  "ident_char c = (let n = (of_char c :: nat) in
     (48 \<le> n \<and> n \<le> 57) \<or> (65 \<le> n \<and> n \<le> 90) \<or> n = 95 \<or> (97 \<le> n \<and> n \<le> 122))"

text \<open>
  Modelled from the spec: the lexical pass over the source text. It yields the
  identifiers and, one by one, the other characters that are not white space; \<open>w\<close> is the
  identifier being read.
\<close>

fun lex :: "string \<Rightarrow> string \<Rightarrow> string list" where
  "lex w [] = (if w = [] then [] else [w])"
| "lex w (c # cs) =
     (if ident_char c then lex (w @ [c]) cs
      else (if w = [] then [] else [w]) @ (if isspace c then [] else [[c]]) @ lex [] cs)"

text \<open>
  Modelled from the spec: the three syntactic shapes, matched without regard to letter
  case: dotted member access \<^verbatim>\<open><Name>.<anything>\<close>, object instantiation
  \<^verbatim>\<open>New <Name>\<close> and type declaration \<^verbatim>\<open>As <Name>\<close>.
\<close>

fun shape_match :: "string list \<Rightarrow> string \<Rightarrow> bool" where
  "shape_match (a # b # ts) n =
     ((lower a = lower n \<and> b = ''.'')
      \<or> ((lower a = ''new'' \<or> lower a = ''as'') \<and> lower b = lower n)
      \<or> shape_match (b # ts) n)"
| "shape_match ts n = False"

text \<open>Modelled from the spec: the text references the name under one of the shapes.\<close>

definition references :: "string \<Rightarrow> string \<Rightarrow> bool" where
  "references text n = shape_match (lex [] text) n"

text \<open>
  Modelled from the spec: the scan of one component \<open>C\<close>. \<open>files\<close> maps a file name to
  the text of a readable file. An unreadable file gives no dependencies and empty text;
  otherwise the dependencies are the names of the registry other than \<open>name C\<close> that the
  text references, each once.
\<close>

definition scan_component :: "(string \<rightharpoonup> string) \<Rightarrow> string list \<Rightarrow> VB6Component \<Rightarrow> VB6Component" where
  "scan_component files names C =
     (case files (filename C) of
        None \<Rightarrow> C\<lparr>dependencies := [], content := []\<rparr>
      | Some text \<Rightarrow>
          C\<lparr>dependencies := remdups (filter (\<lambda>n. n \<noteq> name C \<and> references text n) names),
            content := text\<rparr>)"

text \<open>Modelled from the spec: \<open>scan(project)\<close>, one pass over every component.\<close>

definition scan :: "(string \<rightharpoonup> string) \<Rightarrow> VB6Project \<Rightarrow> VB6Project" where
  "scan files project =
     project\<lparr>components :=
       map (scan_component files (map name (components project))) (components project)\<rparr>"

section \<open>JSON export (generators/json_generator.py)\<close>

text \<open>
  The dictionary \<open>export_data\<close> that \<^verbatim>\<open>json.dump\<close> writes, as records: \<^verbatim>\<open>json.dump\<close> keeps
  the order of every list.
\<close>

record component_json =
  json_name :: string
  json_type :: string
  json_filename :: string
  json_dependencies :: "string list"
  json_dependents :: "string list"
  json_dependency_count :: nat
  json_dependent_count :: nat

record statistics_json =
  stats_total_components :: nat
  stats_forms :: nat
  stats_modules :: nat
  stats_classes :: nat
  stats_user_controls :: nat
  stats_property_pages :: nat
  stats_designers :: nat

record export_data =
  data_project :: "string \<times> string \<times> string"
  data_components :: "component_json list"
  data_statistics :: statistics_json

text \<open>The substring test \<^verbatim>\<open>"CON" in output_file\<close>.\<close>

definition contains :: "string \<Rightarrow> string \<Rightarrow> bool" where
  "contains s sub = list_ex (\<lambda>i. take (length sub) (drop i s) = sub) [0..<Suc (length s)]"

text \<open>
  The entry appended for one component. \<^verbatim>\<open>list(set(comp.dependencies))\<close> lists the set in
  its iteration order, the parameter \<open>set_iter\<close>.
\<close>

definition component_entry :: "(string list \<Rightarrow> string list) \<Rightarrow> VB6Project \<Rightarrow> VB6Component \<Rightarrow> component_json" where
  "component_entry set_iter project component =
     (let dependents = map name (get_dependents project component)
      in \<lparr>json_name = name component, json_type = component_type component,
          json_filename = filename component,
          json_dependencies = set_iter (dependencies component),
          json_dependents = dependents,
          json_dependency_count = length (remdups (dependencies component)),
          json_dependent_count = length dependents\<rparr>)"

definition build_export_data :: "(string list \<Rightarrow> string list) \<Rightarrow> VB6Project \<Rightarrow> export_data" where
  "build_export_data set_iter project =
     \<lparr>data_project = (project_name project, project_path project, project_filename project),
      data_components = map (component_entry set_iter project) (components project),
      data_statistics =
        \<lparr>stats_total_components = length (components project),
         stats_forms = count_components_by_type project ''Form'',
         stats_modules = count_components_by_type project ''Module'',
         stats_classes = count_components_by_type project ''Class'',
         stats_user_controls = count_components_by_type project ''UserControl'',
         stats_property_pages = count_components_by_type project ''PropertyPage'',
         stats_designers = count_components_by_type project ''Designer''\<rparr>\<rparr>"

text \<open>
  \<open>export_json\<close> returns \<^verbatim>\<open>False\<close> (here \<open>None\<close>) in test mode for a path containing
  \<^verbatim>\<open>CON\<close> and when the directory or the file cannot be written (\<open>io_ok\<close> false);
  otherwise it writes the data and returns \<^verbatim>\<open>True\<close> (here the data written).
\<close>

definition export_json ::
  "(string list \<Rightarrow> string list) \<Rightarrow> bool \<Rightarrow> VB6Project \<Rightarrow> string \<Rightarrow> bool \<Rightarrow> export_data option" where
  "export_json set_iter io_ok project output_file test_mode =
     (if test_mode \<and> contains output_file ''CON'' then None
      else if io_ok then Some (build_export_data set_iter project) else None)"

section \<open>Example project\<close>

text \<open>The four components of the repository's test fixture, with their dependencies set.\<close>

definition frmMain :: VB6Component where
  "frmMain = \<lparr>oid = 0, name = ''frmMain'', filename = ''frmMain.frm'', component_type = ''Form'',
     dependencies = [''frmOptions'', ''modUtils'', ''clsData''], content = []\<rparr>"

definition frmOptions :: VB6Component where
  "frmOptions = \<lparr>oid = 1, name = ''frmOptions'', filename = ''frmOptions.frm'',
     component_type = ''Form'', dependencies = [''modUtils'', ''frmMain''], content = []\<rparr>"

definition modUtils :: VB6Component where
  "modUtils = \<lparr>oid = 2, name = ''modUtils'', filename = ''modUtils.bas'',
     component_type = ''Module'', dependencies = [''clsData''], content = []\<rparr>"

definition clsData :: VB6Component where
  "clsData = \<lparr>oid = 3, name = ''clsData'', filename = ''clsData.cls'',
     component_type = ''Class'', dependencies = [], content = []\<rparr>"

definition test_project :: VB6Project where
  "test_project = \<lparr>project_name = ''TestProject'', project_path = ''/tmp'',
     project_filename = ''TestProject.vbp'',
     components = [frmMain, frmOptions, modUtils, clsData]\<rparr>"

text \<open>A component whose only dependency entry spells \<open>frmMain\<close> in capitals.\<close>

definition frmShout :: VB6Component where
  "frmShout = \<lparr>oid = 4, name = ''frmShout'', filename = ''frmShout.frm'',
     component_type = ''Form'', dependencies = [''FRMMAIN''], content = []\<rparr>"

definition shout_project :: VB6Project where
  "shout_project = \<lparr>project_name = ''Shout'', project_path = ''/tmp'',
     project_filename = ''Shout.vbp'', components = [frmMain, frmShout]\<rparr>"

text \<open>The fixture registered in the opposite order.\<close>

definition late_project :: VB6Project where
  "late_project = \<lparr>project_name = ''Late'', project_path = ''/tmp'',
     project_filename = ''Late.vbp'',
     components = [clsData, modUtils, frmOptions, frmMain]\<rparr>"

text \<open>A project file whose component lines collide on their names.\<close>

definition demo_vbp :: "string list" where
  "demo_vbp = [''Name=T'', ''Form=a.frm'', ''Form=A.frm'', ''Class=a_1;x'', '' Module=a'']"

definition demo_project :: VB6Project where
  "demo_project = \<lparr>project_name = ''T'', project_path = ''/p'', project_filename = ''t.vbp'',
     components =
       [new_component 1 ''a'' ''a.frm'' ''Form'',
        new_component 2 ''A_1'' ''A.frm'' ''Form'',
        new_component 3 ''a_1_1'' ''a_1'' ''Class'',
        new_component 4 ''a_2'' ''a'' ''Module'']\<rparr>"

text \<open>
  A component whose text mentions its own name, in capitals and in lower case, and a
  second component whose file is missing.
\<close>

definition self_files :: "string \<rightharpoonup> string" where
  "self_files = [''a.frm'' \<mapsto> ''A.Show: b.Hide: Dim x As a'']"

definition self_project :: VB6Project where
  "self_project = \<lparr>project_name = ''S'', project_path = ''/tmp'', project_filename = ''s.vbp'',
     components = [new_component 0 ''a'' ''a.frm'' ''Form'', new_component 1 ''b'' ''b.frm'' ''Form'']\<rparr>"

text \<open>The scenario of section 8 of the specification.\<close>

definition scenario_files :: "string \<rightharpoonup> string" where
  "scenario_files =
     [''frmMain.frm'' \<mapsto> ''frmOptions.Show'' @ [CHR 0x0A] @ ''modUtils.LogMessage 1'' @ [CHR 0x0A]
                          @ ''Dim data As New clsData'',
      ''frmOptions.frm'' \<mapsto> ''modUtils.InitializeForm Me'' @ [CHR 0x0A] @ ''frmMain.Caption = 1'',
      ''modUtils.bas'' \<mapsto> ''New clsData'',
      ''clsData.cls'' \<mapsto> ''Option Explicit'']"

definition unscanned :: VB6Project where
  "unscanned = \<lparr>project_name = ''TestProject'', project_path = ''/tmp'',
     project_filename = ''TestProject.vbp'',
     components = [new_component 0 ''frmMain'' ''frmMain.frm'' ''Form'',
                   new_component 1 ''frmOptions'' ''frmOptions.frm'' ''Form'',
                   new_component 2 ''modUtils'' ''modUtils.bas'' ''Module'',
                   new_component 3 ''clsData'' ''clsData.cls'' ''Class'']\<rparr>"

section \<open>Invariants of the builder loops\<close>

text \<open>The set \<open>edges_added\<close> holds the keys of exactly the edges written, and no edge is written twice.\<close>

definition edge_inv :: "edge_state \<Rightarrow> bool" where
  "edge_inv st = (fst st = (\<lambda>e. edge_key (fst e) (snd e)) ` set (snd st) \<and> distinct (snd st))"

text \<open>Every identifier stored in \<open>node_ids\<close> belongs to a node that was written.\<close>

definition ids_declared :: "node_state \<Rightarrow> bool" where
  "ids_declared st = (ran (fst st) \<subseteq> fst ` set (snd st))"

text \<open>While the related nodes are added, the entries of the class nodes stay as they are, and every
  node added carries a \<open>related\<close> identifier and a component of the related set.\<close>

definition related_inv :: "node_state \<Rightarrow> VB6Component list \<Rightarrow> node_state \<Rightarrow> bool" where
  "related_inv cns related st =
     ((\<forall>k \<in> dom (fst cns). fst st k = fst cns k)
      \<and> (\<exists>extra. snd st = snd cns @ extra
            \<and> (\<forall>n \<in> set extra. (\<exists>j. fst n = ''related'' @ str_nat j) \<and> snd n \<in> set related)))"

text \<open>No two components of the project have the same name up to letter case.\<close>

definition names_unique :: "VB6Project \<Rightarrow> bool" where
  "names_unique project = distinct (map (\<lambda>c. lower (name c)) (components project))"

section \<open>Auxiliary facts\<close>

lemmas example_defs =
  frmMain_def frmOptions_def modUtils_def clsData_def test_project_def
  frmShout_def shout_project_def late_project_def

lemma fold_invariant:
  assumes "P s" and "\<And>x s. x \<in> set xs \<Longrightarrow> P s \<Longrightarrow> P (f x s)"
  shows "P (fold f xs s)"
  using assms by (induction xs arbitrary: s) auto

lemma write_edge_inv:
  assumes "edge_inv st"
  shows "edge_inv (write_edge s t st)"
proof (cases "edge_key s t \<in> fst st")
  case True
  with assms show ?thesis by (simp add: write_edge_def)
next
  case False
  have "(s, t) \<notin> set (snd st)"
  proof
    assume "(s, t) \<in> set (snd st)"
    then have "edge_key (fst (s, t)) (snd (s, t)) \<in> (\<lambda>e. edge_key (fst e) (snd e)) ` set (snd st)"
      by (rule imageI)
    with assms False show False by (simp add: edge_inv_def)
  qed
  with assms False show ?thesis by (simp add: edge_inv_def write_edge_def)
qed

lemma write_edge_all:
  "\<forall>e \<in> set (snd st). Q e \<Longrightarrow> Q (s, t) \<Longrightarrow> \<forall>e \<in> set (snd (write_edge s t st)). Q e"
  by (auto simp: write_edge_def)

lemma dependency_edges_inv:
  assumes "edge_inv st"
  shows "edge_inv (dependency_edges set_iter project node_ids wanted component st)"
proof (cases "node_ids (name component)")
  case None
  with assms show ?thesis by (simp add: dependency_edges_def)
next
  case (Some source_id)
  show ?thesis
    unfolding dependency_edges_def Some option.case
    by (rule fold_invariant [where P = edge_inv, OF assms])
       (auto split: option.splits intro: write_edge_inv)
qed

lemma dependency_edges_all:
  assumes init: "\<forall>e \<in> set (snd st). Q e"
    and step: "\<And>s t dep dep_comp. node_ids (name component) = Some s
           \<Longrightarrow> find_component_by_name project dep = Some dep_comp \<Longrightarrow> wanted dep_comp
           \<Longrightarrow> node_ids (name dep_comp) = Some t \<Longrightarrow> Q (s, t)"
  shows "\<forall>e \<in> set (snd (dependency_edges set_iter project node_ids wanted component st)). Q e"
proof (cases "node_ids (name component)")
  case None
  with init show ?thesis by (simp add: dependency_edges_def)
next
  case (Some source_id)
  let ?P = "\<lambda>st. \<forall>e \<in> set (snd st). Q e"
  let ?f = "\<lambda>dep st. case find_component_by_name project dep of
                    None \<Rightarrow> st
                  | Some dep_comp \<Rightarrow>
                      (if wanted dep_comp
                       then (case node_ids (name dep_comp) of
                               None \<Rightarrow> st
                             | Some target_id \<Rightarrow> write_edge source_id target_id st)
                       else st)"
  have "?P (?f dep st')" if "?P st'" for dep st'
  proof (cases "find_component_by_name project dep")
    case None
    with that show ?thesis by simp
  next
    case found: (Some dep_comp)
    show ?thesis
    proof (cases "wanted dep_comp \<and> node_ids (name dep_comp) \<noteq> None")
      case True
      then obtain t where t: "node_ids (name dep_comp) = Some t" and w: "wanted dep_comp"
        by auto
      from step [OF Some found w t] that have "?P (write_edge source_id t st')"
        by (rule write_edge_all [rotated])
      with found t w show ?thesis by simp
    next
      case False
      with found that show ?thesis by (auto split: option.splits)
    qed
  qed
  then have "?P (fold ?f (set_iter (dependencies component)) st)"
    using init by (intro fold_invariant [where P = ?P])
  then show ?thesis by (simp add: dependency_edges_def Some)
qed

lemma edge_inv_init: "edge_inv ({}, [])"
  by (simp add: edge_inv_def)

lemma fold_dependency_edges_inv:
  "edge_inv st \<Longrightarrow> edge_inv (fold (dependency_edges set_iter project node_ids wanted) comps st)"
  by (rule fold_invariant [where P = edge_inv]) (auto intro: dependency_edges_inv)

lemma fold_edges_distinct:
  "edge_inv st \<Longrightarrow> distinct (snd (fold (dependency_edges set_iter project node_ids wanted) comps st))"
  using fold_dependency_edges_inv [of st set_iter project node_ids wanted comps]
  by (simp add: edge_inv_def)

lemma fold_dependency_edges_all:
  assumes "\<forall>e \<in> set (snd st). Q e"
    and "\<And>component s t dep dep_comp. component \<in> set comps
           \<Longrightarrow> node_ids (name component) = Some s
           \<Longrightarrow> find_component_by_name project dep = Some dep_comp \<Longrightarrow> wanted dep_comp
           \<Longrightarrow> node_ids (name dep_comp) = Some t \<Longrightarrow> Q (s, t)"
  shows "\<forall>e \<in> set (snd (fold (dependency_edges set_iter project node_ids wanted) comps st)). Q e"
  by (rule fold_invariant [where P = "\<lambda>st. \<forall>e \<in> set (snd st). Q e", OF assms(1)])
     (rule dependency_edges_all, assumption, rule assms(2))

lemma add_node_fold_snd:
  "snd (fold (add_node p) ics st) = snd st @ map (\<lambda>ic. (p @ str_nat (fst ic), snd ic)) ics"
  by (induction ics arbitrary: st) (simp_all add: add_node_def Let_def)

lemma ran_upd_subset: "ran (m(k \<mapsto> v)) \<subseteq> insert v (ran m)"
  by (auto simp: ran_def)

lemma add_node_declared: "ids_declared st \<Longrightarrow> ids_declared (add_node p ic st)"
  using ran_upd_subset [of "fst st" "name (snd ic)" "p @ str_nat (fst ic)"]
  by (auto simp: ids_declared_def add_node_def Let_def)

lemma add_related_node_declared: "ids_declared st \<Longrightarrow> ids_declared (add_related_node ic st)"
  by (simp add: add_related_node_def add_node_declared)

lemma fold_add_node_declared: "ids_declared st \<Longrightarrow> ids_declared (fold (add_node p) ics st)"
  by (rule fold_invariant [where P = ids_declared]) (auto intro: add_node_declared)

lemma fold_add_related_declared: "ids_declared st \<Longrightarrow> ids_declared (fold add_related_node ics st)"
  by (rule fold_invariant [where P = ids_declared]) (auto intro: add_related_node_declared)

lemma ids_declared_init: "ids_declared (Map.empty, [])"
  by (simp add: ids_declared_def)

lemma declared_lookup: "ids_declared st \<Longrightarrow> fst st k = Some v \<Longrightarrow> v \<in> fst ` set (snd st)"
  by (auto simp: ids_declared_def ran_def)

lemma edges_between_declared:
  assumes "ids_declared ns" and "\<forall>e \<in> set (snd st). fst e \<in> fst ` set (snd ns) \<and> snd e \<in> fst ` set (snd ns)"
  shows "\<forall>e \<in> set (snd (fold (dependency_edges set_iter project (fst ns) wanted) comps st)).
           fst e \<in> fst ` set (snd ns) \<and> snd e \<in> fst ` set (snd ns)"
  by (rule fold_dependency_edges_all [OF assms(2)])
     (simp add: declared_lookup [OF assms(1)])

lemma sort_connections_descending: "sorted_wrt (\<lambda>a b. snd b \<le> snd a) (sort_connections conns)"
proof -
  have "sorted (map (\<lambda>x. - int (snd x)) (sort_connections conns))"
    unfolding sort_connections_def by (rule sorted_sort_key)
  then show ?thesis by (simp add: sorted_map)
qed

lemma sort_connections_stable:
  "filter (\<lambda>x. snd x = k) (sort_connections conns) = filter (\<lambda>x. snd x = k) conns"
  using sort_key_stable [of "\<lambda>x. - int (snd x)" "- int k" conns]
  by (simp add: sort_connections_def)

lemma take_drop_descending:
  assumes "a \<in> set (take k (sort_connections conns))" and "b \<in> set (drop k (sort_connections conns))"
  shows "snd b \<le> snd a"
proof -
  have "sorted_wrt (\<lambda>a b. snd b \<le> snd a) (take k (sort_connections conns) @ drop k (sort_connections conns))"
    by (simp add: sort_connections_descending)
  with assms show ?thesis unfolding sorted_wrt_append by blast
qed

lemma find_in_Some: "find_in cs nm = Some c \<Longrightarrow> c \<in> set cs \<and> lower (name c) = lower nm"
  by (induction cs) (auto split: if_splits)

lemma find_component_by_name_Some:
  "find_component_by_name project nm = Some c \<Longrightarrow> c \<in> set (components project)"
  by (simp add: find_component_by_name_def find_in_Some)

lemma add_node_dom: "dom (fst (add_node p ic st)) = insert (name (snd ic)) (dom (fst st))"
  by (simp add: add_node_def Let_def)

lemma add_node_fold_dom_eq:
  "dom (fst (fold (add_node p) ics st)) = dom (fst st) \<union> (\<lambda>ic. name (snd ic)) ` set ics"
  by (induction ics arbitrary: st) (simp_all add: add_node_dom)

lemma add_node_fold_dom:
  "ic \<in> set ics \<Longrightarrow> name (snd ic) \<in> dom (fst (fold (add_node p) ics st))"
  unfolding add_node_fold_dom_eq by blast

lemma related_to_not_class: "c \<in> set (related_to set_iter project cls) \<Longrightarrow> component_type c \<noteq> ''Class''"
  by (auto simp: related_to_def split: option.splits if_splits)

lemma related_inv_init: "related_inv cns related cns"
  by (simp add: related_inv_def)

lemma add_related_node_inv:
  assumes "related_inv cns related st" and "snd ic \<in> set related"
  shows "related_inv cns related (add_related_node ic st)"
proof (cases "fst st (name (snd ic))")
  case (Some v)
  with assms show ?thesis by (simp add: add_related_node_def)
next
  case None
  from assms(1) obtain extra where ex: "snd st = snd cns @ extra"
    and all: "\<forall>n \<in> set extra. (\<exists>j. fst n = ''related'' @ str_nat j) \<and> snd n \<in> set related"
    and keep: "\<forall>k \<in> dom (fst cns). fst st k = fst cns k"
    by (auto simp: related_inv_def)
  from None keep have "name (snd ic) \<notin> dom (fst cns)" by force
  with keep have k: "\<forall>k \<in> dom (fst cns). fst (add_related_node ic st) k = fst cns k"
    using None by (auto simp: add_related_node_def add_node_def Let_def)
  have s: "snd (add_related_node ic st)
      = snd cns @ (extra @ [(''related'' @ str_nat (fst ic), snd ic)])"
    using None ex by (simp add: add_related_node_def add_node_def Let_def)
  have "\<forall>n \<in> set (extra @ [(''related'' @ str_nat (fst ic), snd ic)]).
          (\<exists>j. fst n = ''related'' @ str_nat j) \<and> snd n \<in> set related"
    using all assms(2) by auto
  with k s show ?thesis unfolding related_inv_def by blast
qed

lemma fold_add_related_inv:
  "related_inv cns related (fold add_related_node (enumerate n related) cns)"
proof (rule fold_invariant [where P = "related_inv cns related", OF related_inv_init])
  fix x st
  assume "x \<in> set (enumerate n related)" and inv: "related_inv cns related st"
  then have "snd x \<in> snd ` set (enumerate n related)" by (rule_tac imageI)
  then have "snd x \<in> set related" by (simp flip: set_map)
  with inv show "related_inv cns related (add_related_node x st)"
    by (rule add_related_node_inv)
qed

lemma class_nodes_dom:
  "dom (fst (fold (add_node p) (enumerate n cs) (Map.empty, []))) = name ` set cs"
proof -
  have "(\<lambda>ic. name (snd ic)) ` set (enumerate n cs) = name ` set (map snd (enumerate n cs))"
    unfolding set_map image_image ..
  then show ?thesis by (simp add: add_node_fold_dom_eq)
qed

lemma class_nodes_snd:
  "n \<in> set (snd (fold (add_node p) (enumerate k cs) (Map.empty, [])))
     \<Longrightarrow> snd n \<in> set cs \<and> (\<exists>j. fst n = p @ str_nat j)"
proof -
  assume "n \<in> set (snd (fold (add_node p) (enumerate k cs) (Map.empty, [])))"
  then obtain ic where ic: "ic \<in> set (enumerate k cs)" and n: "n = (p @ str_nat (fst ic), snd ic)"
    by (auto simp: add_node_fold_snd)
  from ic have "snd ic \<in> set (map snd (enumerate k cs))" unfolding set_map by (rule imageI)
  with n show ?thesis by auto
qed

lemma free_counter_free:
  "find_component_by_name project (suffixed nm (free_counter project nm counter)) = None"
proof (induction project nm counter rule: free_counter.induct)
  case (1 project nm counter)
  then show ?case by (subst free_counter.simps) auto
qed

lemma free_counter_least:
  "counter \<le> free_counter project nm counter
   \<and> (\<forall>j. counter \<le> j \<and> j < free_counter project nm counter
          \<longrightarrow> find_component_by_name project (suffixed nm j) \<noteq> None)"
proof (induction project nm counter rule: free_counter.induct)
  case (1 project nm counter)
  show ?case
  proof (cases "find_component_by_name project (suffixed nm counter) \<noteq> None")
    case True
    then have eq: "free_counter project nm counter = free_counter project nm (counter + 1)"
      by (subst free_counter.simps) simp
    from "1.IH" [OF True] have le: "counter + 1 \<le> free_counter project nm (counter + 1)"
      and rest: "\<And>j. counter + 1 \<le> j \<Longrightarrow> j < free_counter project nm (counter + 1)
          \<Longrightarrow> find_component_by_name project (suffixed nm j) \<noteq> None"
      by blast+
    have "find_component_by_name project (suffixed nm j) \<noteq> None"
      if "counter \<le> j" and "j < free_counter project nm counter" for j
    proof (cases "j = counter")
      case True
      with \<open>find_component_by_name project (suffixed nm counter) \<noteq> None\<close> show ?thesis by simp
    next
      case False
      with that have "counter + 1 \<le> j" by simp
      with that(2) eq show ?thesis by (simp add: rest)
    qed
    with le eq show ?thesis by simp
  next
    case False
    then have "free_counter project nm counter = counter"
      by (subst free_counter.simps) simp
    then show ?thesis by auto
  qed
qed

lemma unique_name_free: "find_component_by_name project (unique_name project nm) = None"
  by (simp add: unique_name_def free_counter_free)

lemma add_component_names_unique:
  assumes "names_unique project" and "find_component_by_name project nm = None"
  shows "names_unique (add_component project nm fn ty)"
  using assms
  by (simp add: names_unique_def add_component_def new_component_def
        find_component_by_name_def find_in_None)

lemma add_component_from_line_names_unique:
  "names_unique project \<Longrightarrow> names_unique (fst (add_component_from_line os_path project file_info ty))"
  by (simp add: add_component_from_line_def add_component_names_unique unique_name_free)

lemma parse_line_names_unique:
  "names_unique project \<Longrightarrow> names_unique (parse_line os_path raw project)"
  by (simp add: parse_line_def Let_def add_component_from_line_names_unique)
     (simp add: names_unique_def)

lemma split_on_not_Nil: "split_on sep s \<noteq> []"
  by (induction s) auto

lemma set_iteration_remdups: "set_iteration remdups"
  by (simp add: set_iteration_def)

lemma set_iteration_rev_remdups: "set_iteration (rev \<circ> remdups)"
  by (simp add: set_iteration_def)

lemma scan_scenario:
  "map (\<lambda>c. (name c, dependencies c)) (components (scan scenario_files unscanned))
     = [(''frmMain'', [''frmOptions'', ''modUtils'', ''clsData'']),
        (''frmOptions'', [''frmMain'', ''modUtils'']),
        (''modUtils'', [''clsData'']),
        (''clsData'', [])]"
  by code_simp

lemma fold_max_ge: "(a::nat) \<le> fold max xs a \<and> (\<forall>x \<in> set xs. x \<le> fold max xs a)"
proof (induction xs arbitrary: a)
  case Nil
  then show ?case by simp
next
  case (Cons y ys)
  from Cons.IH [of "max y a"] show ?case by (auto simp: max_def split: if_splits)
qed

lemma fresh_oid_fresh: "c \<in> set (components project) \<Longrightarrow> oid c < fresh_oid project"
  using fold_max_ge [of 0 "map oid (components project)"]
  by (auto simp: fresh_oid_def less_Suc_eq_le)

lemma add_component_oid_consistent:
  assumes "oid_consistent project"
  shows "oid_consistent (add_component project nm fn ty)"
proof -
  have "fresh_oid project \<notin> oid ` set (components project)"
  proof
    assume "fresh_oid project \<in> oid ` set (components project)"
    then obtain c where "c \<in> set (components project)" and "fresh_oid project = oid c"
      by auto
    with fresh_oid_fresh [of c project] show False by simp
  qed
  with assms show ?thesis
    by (auto simp: oid_consistent_def add_component_def new_component_def)
qed

lemma parse_line_oid_consistent:
  "oid_consistent project \<Longrightarrow> oid_consistent (parse_line os_path raw project)"
  by (simp add: parse_line_def Let_def add_component_from_line_def add_component_oid_consistent)
     (simp add: oid_consistent_def)

lemma parse_vbp_file_oid_consistent:
  assumes "parse_vbp_file os_path vbp_file_path file = Some project"
  shows "oid_consistent project"
proof -
  from assms obtain lines where p: "project = fold (parse_line os_path) lines
        (new_project\<lparr>project_filename := basename os_path vbp_file_path,
                     project_path := dirname os_path vbp_file_path\<rparr>)"
    by (auto simp: parse_vbp_file_def split: option.splits)
  have "oid_consistent (new_project\<lparr>project_filename := basename os_path vbp_file_path,
                     project_path := dirname os_path vbp_file_path\<rparr>)"
    by (simp add: oid_consistent_def new_project_def)
  then show ?thesis
    unfolding p by (rule fold_invariant) (rule parse_line_oid_consistent)
qed

section \<open>Dependents and dependencies\<close>

text \<open>
  C1. Dependents/dependency duality: for components \<open>A\<close> and \<open>B\<close> of a project, \<open>B\<close> is
  among \<open>get_dependents project A\<close> exactly when the string \<open>name A\<close> is an entry of
  \<open>dependencies B\<close>.
\<close>

theorem get_dependents_duality:
  assumes "B \<in> set (components project)"
  shows "B \<in> set (get_dependents project A) \<longleftrightarrow> name A \<in> set (dependencies B)"
  using assms by (simp add: get_dependents_def)

theorem get_dependents_duality_witness:
  "modUtils \<in> set (components test_project)
   \<and> modUtils \<in> set (get_dependents test_project clsData)
   \<and> name clsData \<in> set (dependencies modUtils)
   \<and> clsData \<in> set (components test_project)
   \<and> clsData \<notin> set (get_dependents test_project modUtils)
   \<and> name modUtils \<notin> set (dependencies clsData)"
proof -
  have m: "modUtils \<in> set (components test_project)"
    and c: "clsData \<in> set (components test_project)"
    by (simp_all add: example_defs)
  have d: "name clsData \<in> set (dependencies modUtils)"
    and n: "name modUtils \<notin> set (dependencies clsData)"
    by (simp_all add: example_defs)
  from d n get_dependents_duality [OF m, of clsData] get_dependents_duality [OF c, of modUtils] m c
  show ?thesis by blast
qed

text \<open>
  C9. For a component \<open>c\<close> of a project that does not list its own name among its
  dependencies, \<open>has_dependents project c\<close> is true exactly when
  \<open>get_dependents project c\<close> is not empty. (The project is a Python object graph: entries
  with the same identity are the same object.)
\<close>

theorem has_dependents_iff_get_dependents:
  assumes c: "c \<in> set (components project)"
    and objs: "oid_consistent project"
    and noself: "name c \<notin> set (dependencies c)"
  shows "has_dependents project c \<longleftrightarrow> get_dependents project c \<noteq> []"
proof
  assume "has_dependents project c"
  then obtain other where "other \<in> set (components project)"
    and "name c \<in> set (dependencies other)"
    by (auto simp: has_dependents_def)
  then have "other \<in> set (get_dependents project c)"
    by (simp add: get_dependents_def)
  then show "get_dependents project c \<noteq> []" by auto
next
  assume "get_dependents project c \<noteq> []"
  then obtain other where "other \<in> set (get_dependents project c)"
    by (cases "get_dependents project c") auto
  then have o: "other \<in> set (components project)"
    and d: "name c \<in> set (dependencies other)"
    by (simp_all add: get_dependents_def)
  from d noself have "other \<noteq> c" by auto
  moreover from objs have "inj_on oid (set (components project))"
    by (simp add: oid_consistent_def)
  ultimately have "oid other \<noteq> oid c"
    using o c by (auto dest: inj_onD)
  with o d show "has_dependents project c"
    by (auto simp: has_dependents_def)
qed

theorem has_dependents_iff_get_dependents_witness:
  "clsData \<in> set (components test_project) \<and> oid_consistent test_project
   \<and> name clsData \<notin> set (dependencies clsData)
   \<and> has_dependents test_project clsData
   \<and> get_dependents test_project clsData = [frmMain, modUtils]"
proof -
  have c: "clsData \<in> set (components test_project)"
    and n: "name clsData \<notin> set (dependencies clsData)"
    by (simp_all add: example_defs)
  have "distinct (map oid (components test_project))"
    by (simp add: example_defs)
  then have o: "oid_consistent test_project"
    by (simp add: oid_consistent_def distinct_map)
  have g: "get_dependents test_project clsData = [frmMain, modUtils]"
    by (simp add: example_defs get_dependents_def)
  from has_dependents_iff_get_dependents [OF c o n] g c o n
  show ?thesis by simp
qed

text \<open>
  C10. Membership in \<open>get_dependents\<close> is decided by exact, case-sensitive string
  equality: the result keeps precisely the components that have an entry equal to
  \<open>name c\<close>, and a component whose entries match \<open>name c\<close> only up to letter case is not
  a dependent of \<open>c\<close> (although \<open>find_component_by_name\<close> would resolve such an entry).
\<close>

theorem get_dependents_case_sensitive:
  "get_dependents project c
     = filter (\<lambda>X. \<exists>d \<in> set (dependencies X). d = name c) (components project)
   \<and> (\<forall>X. (\<forall>d \<in> set (dependencies X). lower d = lower (name c) \<longrightarrow> d \<noteq> name c)
          \<longrightarrow> X \<notin> set (get_dependents project c))"
proof -
  have "(\<lambda>X. name c \<in> set (dependencies X)) = (\<lambda>X. \<exists>d \<in> set (dependencies X). d = name c)"
    by auto
  then have "get_dependents project c
     = filter (\<lambda>X. \<exists>d \<in> set (dependencies X). d = name c) (components project)"
    by (simp add: get_dependents_def)
  moreover have "X \<notin> set (get_dependents project c)"
    if "\<forall>d \<in> set (dependencies X). lower d = lower (name c) \<longrightarrow> d \<noteq> name c" for X
    using that by (auto simp: get_dependents_def)
  ultimately show ?thesis by blast
qed

theorem get_dependents_case_sensitive_witness:
  "dependencies frmShout = [''FRMMAIN'']
   \<and> ''FRMMAIN'' \<noteq> name frmMain
   \<and> lower ''FRMMAIN'' = lower (name frmMain)
   \<and> find_component_by_name shout_project ''FRMMAIN'' = Some frmMain
   \<and> frmShout \<notin> set (get_dependents shout_project frmMain)
   \<and> get_dependents shout_project frmMain = []"
proof -
  have h: "\<forall>d \<in> set (dependencies frmShout). lower d = lower (name frmMain) \<longrightarrow> d \<noteq> name frmMain"
    by (simp add: example_defs)
  have l: "lower ''FRMMAIN'' = lower (name frmMain)"
    unfolding frmMain_def by code_simp
  have f: "find_component_by_name shout_project ''FRMMAIN'' = Some frmMain"
    unfolding example_defs find_component_by_name_def by code_simp
  have g: "get_dependents shout_project frmMain = []"
    by (simp add: example_defs get_dependents_def)
  have e: "dependencies frmShout = [''FRMMAIN'']" and ne: "''FRMMAIN'' \<noteq> name frmMain"
    by (simp_all add: example_defs)
  from get_dependents_case_sensitive [of shout_project frmMain] h
  have "frmShout \<notin> set (get_dependents shout_project frmMain)" by blast
  with e ne l f g show ?thesis by simp
qed

section \<open>The projection builders\<close>

text \<open>
  C7. In each of the three builders (core view, form-relationships view, business-logic
  view) every directed edge (source identifier, target identifier) is written at most
  once, however often the target occurs among the dependencies of the source and in
  whatever order, and with whatever repetitions, the dependencies are visited.
\<close>

theorem edges_emitted_once:
  "distinct (edges (generate_core_architecture_diagram set_iter project))
   \<and> distinct (edges (generate_form_relationships_diagram set_iter project))
   \<and> distinct (edges (generate_business_logic_diagram set_iter obj_iter project))"
proof (intro conjI)
  show "distinct (edges (generate_core_architecture_diagram set_iter project))"
    unfolding generate_core_architecture_diagram_def Let_def
    by (simp add: fold_edges_distinct edge_inv_init)
  show "distinct (edges (generate_form_relationships_diagram set_iter project))"
    unfolding generate_form_relationships_diagram_def Let_def
    by (simp add: fold_edges_distinct edge_inv_init)
  show "distinct (edges (generate_business_logic_diagram set_iter obj_iter project))"
    unfolding generate_business_logic_diagram_def Let_def
    by (simp add: fold_edges_distinct fold_dependency_edges_inv edge_inv_init)
qed

text \<open>
  C8. The form-relationships view is the induced subgraph on the Form components: its
  nodes are exactly the components of type Form, in registration order, and both ends of
  every edge it writes are identifiers of those nodes.
\<close>

theorem form_view_induced_subgraph:
  "map snd (nodes (generate_form_relationships_diagram set_iter project))
     = filter (\<lambda>comp. component_type comp = ''Form'') (components project)
   \<and> (\<forall>e \<in> set (edges (generate_form_relationships_diagram set_iter project)).
         fst e \<in> fst ` set (nodes (generate_form_relationships_diagram set_iter project))
       \<and> snd e \<in> fst ` set (nodes (generate_form_relationships_diagram set_iter project)))"
proof -
  let ?forms = "filter (\<lambda>comp. component_type comp = ''Form'') (components project)"
  let ?ns = "fold (add_node ''form'') (enumerate 0 ?forms) (Map.empty, [])"
  have d: "ids_declared ?ns"
    by (rule fold_add_node_declared [OF ids_declared_init])
  have n: "map snd (snd ?ns) = ?forms"
    by (simp add: add_node_fold_snd comp_def)
  have e: "\<forall>e \<in> set (snd (fold (dependency_edges set_iter project (fst ?ns)
                 (\<lambda>dep_comp. component_type dep_comp = ''Form'')) ?forms ({}, []))).
           fst e \<in> fst ` set (snd ?ns) \<and> snd e \<in> fst ` set (snd ?ns)"
    by (rule edges_between_declared [OF d]) simp
  from n e show ?thesis
    unfolding generate_form_relationships_diagram_def Let_def by simp
qed

theorem form_view_induced_subgraph_witness:
  "map snd (nodes (generate_form_relationships_diagram remdups test_project)) = [frmMain, frmOptions]
   \<and> map fst (nodes (generate_form_relationships_diagram remdups test_project)) = [''form0'', ''form1'']
   \<and> edges (generate_form_relationships_diagram remdups test_project)
       = [(''form0'', ''form1''), (''form1'', ''form0'')]"
proof -
  have ev: "generate_form_relationships_diagram remdups test_project
      = \<lparr>nodes = [(''form0'', frmMain), (''form1'', frmOptions)],
         edges = [(''form0'', ''form1''), (''form1'', ''form0'')]\<rparr>"
    by code_simp
  from form_view_induced_subgraph [of remdups test_project] ev show ?thesis by simp
qed

text \<open>
  C2. The core view draws the 20 most connected components (all of them when there are
  fewer): the connectivity of a component is the number of its dependents plus the number
  of its distinct dependencies; the components are ranked by connectivity, highest first,
  components of equal connectivity staying in registration order; the nodes are the
  first 20 of that ranking, so no component left out is more connected than one drawn;
  and both ends of every edge are identifiers of the nodes drawn. In particular the
  ranking of \<open>A:5, B:5, C:3\<close> cut after two yields \<open>A\<close> then \<open>B\<close>.
\<close>

theorem core_view_most_connected:
  "component_connections project
     = map (\<lambda>c. (c, length (get_dependents project c) + card (set (dependencies c)))) (components project)
   \<and> sorted_wrt (\<lambda>a b. snd b \<le> snd a) (sort_connections (component_connections project))
   \<and> (\<forall>k. filter (\<lambda>x. snd x = k) (sort_connections (component_connections project))
           = filter (\<lambda>x. snd x = k) (component_connections project))
   \<and> (\<forall>a \<in> set (take 20 (sort_connections (component_connections project))).
       \<forall>b \<in> set (drop 20 (sort_connections (component_connections project))). snd b \<le> snd a)
   \<and> map snd (nodes (generate_core_architecture_diagram set_iter project))
       = map fst (take 20 (sort_connections (component_connections project)))
   \<and> (\<forall>e \<in> set (edges (generate_core_architecture_diagram set_iter project)).
         fst e \<in> fst ` set (nodes (generate_core_architecture_diagram set_iter project))
       \<and> snd e \<in> fst ` set (nodes (generate_core_architecture_diagram set_iter project)))
   \<and> most_connected 2 [(A, 5), (B, 5), (C, 3)] = [A, B]"
proof -
  let ?comps = "components_to_render project"
  let ?ns = "fold (add_node ''core'') (enumerate 0 ?comps) (Map.empty, [])"
  have conn: "component_connections project
     = map (\<lambda>c. (c, length (get_dependents project c) + card (set (dependencies c)))) (components project)"
    by (simp add: component_connections_def length_remdups_card_conv)
  have d: "ids_declared ?ns"
    by (rule fold_add_node_declared [OF ids_declared_init])
  have n: "map snd (snd ?ns) = map fst (take 20 (sort_connections (component_connections project)))"
    by (simp add: add_node_fold_snd comp_def components_to_render_def most_connected_def
          MAX_COMPONENTS_def)
  have e: "\<forall>e \<in> set (snd (fold (dependency_edges set_iter project (fst ?ns) (\<lambda>dep_comp. True))
                 ?comps ({}, []))).
           fst e \<in> fst ` set (snd ?ns) \<and> snd e \<in> fst ` set (snd ?ns)"
    by (rule edges_between_declared [OF d]) simp
  have ex: "most_connected 2 [(A, 5), (B, 5), (C, 3)] = [A, B]"
    by (simp add: most_connected_def sort_connections_def)
  have nodes: "map snd (nodes (generate_core_architecture_diagram set_iter project))
       = map fst (take 20 (sort_connections (component_connections project)))"
    using n unfolding generate_core_architecture_diagram_def Let_def by simp
  have edges: "\<forall>e \<in> set (edges (generate_core_architecture_diagram set_iter project)).
         fst e \<in> fst ` set (nodes (generate_core_architecture_diagram set_iter project))
       \<and> snd e \<in> fst ` set (nodes (generate_core_architecture_diagram set_iter project))"
    using e unfolding generate_core_architecture_diagram_def Let_def by simp
  from conn sort_connections_descending sort_connections_stable take_drop_descending nodes edges ex
  show ?thesis by blast
qed

theorem core_view_most_connected_witness:
  "map snd (nodes (generate_core_architecture_diagram remdups late_project))
     = [frmMain, modUtils, frmOptions, clsData]
   \<and> map snd (component_connections late_project) = [2, 3, 3, 4]
   \<and> edges (generate_core_architecture_diagram remdups late_project)
       = [(''core0'', ''core2''), (''core0'', ''core1''), (''core0'', ''core3''),
          (''core1'', ''core3''), (''core2'', ''core1''), (''core2'', ''core0'')]
   \<and> most_connected 2 [(frmMain, 5), (frmOptions, 5), (clsData, 3)] = [frmMain, frmOptions]"
proof -
  have r: "map fst (take 20 (sort_connections (component_connections late_project)))
      = [frmMain, modUtils, frmOptions, clsData]"
    by code_simp
  have c: "map snd (component_connections late_project) = [2, 3, 3, 4]"
    by code_simp
  have e: "edges (generate_core_architecture_diagram remdups late_project)
       = [(''core0'', ''core2''), (''core0'', ''core1''), (''core0'', ''core3''),
          (''core1'', ''core3''), (''core2'', ''core1''), (''core2'', ''core0'')]"
    by code_simp
  from core_view_most_connected [of late_project remdups frmMain frmOptions clsData] r c e
  show ?thesis by simp
qed

text \<open>
  C5. In the business-logic view every edge written is primary to primary, primary to
  secondary or secondary to primary, where the primary nodes are those of the Class
  components and the secondary nodes those of the related components of other types; no
  identifier is both, so no edge joins two secondary nodes. (The set of related components
  may be visited in any order.)
\<close>

theorem business_logic_edges_touch_class:
  assumes sub: "\<forall>xs. set (obj_iter xs) \<subseteq> set xs"
  shows "primary_ids (generate_business_logic_diagram set_iter obj_iter project)
           \<inter> secondary_ids (generate_business_logic_diagram set_iter obj_iter project) = {}
   \<and> (\<forall>e \<in> set (edges (generate_business_logic_diagram set_iter obj_iter project)).
         (fst e \<in> primary_ids (generate_business_logic_diagram set_iter obj_iter project)
            \<and> snd e \<in> primary_ids (generate_business_logic_diagram set_iter obj_iter project))
       \<or> (fst e \<in> primary_ids (generate_business_logic_diagram set_iter obj_iter project)
            \<and> snd e \<in> secondary_ids (generate_business_logic_diagram set_iter obj_iter project))
       \<or> (fst e \<in> secondary_ids (generate_business_logic_diagram set_iter obj_iter project)
            \<and> snd e \<in> primary_ids (generate_business_logic_diagram set_iter obj_iter project)))"
proof -
  define classes where "classes = filter (\<lambda>comp. component_type comp = ''Class'') (components project)"
  define cns where "cns = fold (add_node ''class'') (enumerate 0 classes) (Map.empty, [])"
  define related where "related = obj_iter (concat (map (related_to set_iter project) classes))"
  define ns where "ns = fold add_related_node (enumerate 0 related) cns"
  define es1 where "es1 = fold (dependency_edges set_iter project (fst ns) (\<lambda>dep_comp. True)) classes ({}, [])"
  define es2 where "es2 = fold (dependency_edges set_iter project (fst ns)
                        (\<lambda>dep_comp. component_type dep_comp = ''Class'')) related es1"
  define d where "d = generate_business_logic_diagram set_iter obj_iter project"
  have d_nodes: "nodes d = snd ns" and d_edges: "edges d = snd es2"
    unfolding d_def generate_business_logic_diagram_def Let_def
      es2_def es1_def ns_def related_def cns_def classes_def by simp_all
  define CI where "CI = fst ` set (snd cns)"
  have dc: "ids_declared cns"
    unfolding cns_def by (rule fold_add_node_declared [OF ids_declared_init])
  then have dn: "ids_declared ns"
    unfolding ns_def by (rule fold_add_related_declared)
  have "related_inv cns related ns"
    unfolding ns_def by (rule fold_add_related_inv)
  then obtain extra where keep: "\<forall>k \<in> dom (fst cns). fst ns k = fst cns k"
    and ns_snd: "snd ns = snd cns @ extra"
    and extra: "\<forall>n \<in> set extra. (\<exists>j. fst n = ''related'' @ str_nat j) \<and> snd n \<in> set related"
    by (auto simp: related_inv_def)
  have related_type: "component_type c \<noteq> ''Class''" if "c \<in> set related" for c
  proof -
    from that sub have "c \<in> set (concat (map (related_to set_iter project) classes))"
      unfolding related_def by blast
    then show ?thesis by (auto dest: related_to_not_class)
  qed
  have class_type: "component_type (snd n) = ''Class'' \<and> (\<exists>j. fst n = ''class'' @ str_nat j)"
    if "n \<in> set (snd cns)" for n
    using class_nodes_snd [OF that [unfolded cns_def]] by (auto simp: classes_def)
  have prim: "primary_ids d = CI"
  proof -
    have "{n \<in> set (nodes d). component_type (snd n) = ''Class''} = set (snd cns)"
      unfolding d_nodes ns_snd using class_type extra related_type by auto
    then show ?thesis by (simp add: primary_ids_def CI_def flip: set_filter)
  qed
  have sec: "secondary_ids d = fst ` set extra"
  proof -
    have "{n \<in> set (nodes d). component_type (snd n) \<noteq> ''Class''} = set extra"
      unfolding d_nodes ns_snd using class_type extra related_type by auto
    then show ?thesis by (simp add: secondary_ids_def flip: set_filter)
  qed
  have disj: "primary_ids d \<inter> secondary_ids d = {}"
  proof -
    have "x \<notin> fst ` set extra" if "x \<in> CI" for x
    proof
      assume "x \<in> fst ` set extra"
      with extra obtain j where "x = ''related'' @ str_nat j" by auto
      moreover from that class_type obtain i where "x = ''class'' @ str_nat i"
        by (auto simp: CI_def)
      ultimately show False by simp
    qed
    then show ?thesis unfolding prim sec by blast
  qed
  have all_ids: "fst ` set (snd ns) = CI \<union> fst ` set extra"
    by (auto simp: ns_snd CI_def)
  have class_lookup: "s \<in> CI" if "cls \<in> set classes" and "fst ns (name cls) = Some s" for cls s
  proof -
    from that(1) have k: "name cls \<in> dom (fst cns)"
      unfolding cns_def class_nodes_dom by (rule imageI)
    with keep that(2) have "fst cns (name cls) = Some s" by auto
    from declared_lookup [OF dc this] show ?thesis by (simp add: CI_def)
  qed
  let ?Q = "\<lambda>e. fst e \<in> fst ` set (snd ns) \<and> snd e \<in> fst ` set (snd ns) \<and> (fst e \<in> CI \<or> snd e \<in> CI)"
  have q1: "\<forall>e \<in> set (snd es1). ?Q e"
    unfolding es1_def
  proof (rule fold_dependency_edges_all)
    show "\<forall>e \<in> set (snd ({}, [])). ?Q e" by simp
  next
    fix component s t dep dep_comp
    assume "component \<in> set classes" and s: "fst ns (name component) = Some s"
      and t: "fst ns (name dep_comp) = Some t"
    then have "s \<in> CI" by (rule_tac class_lookup)
    with declared_lookup [OF dn s] declared_lookup [OF dn t] show "?Q (s, t)" by simp
  qed
  have q2: "\<forall>e \<in> set (snd es2). ?Q e"
    unfolding es2_def
  proof (rule fold_dependency_edges_all [OF q1])
    fix component s t dep dep_comp
    assume s: "fst ns (name component) = Some s"
      and f: "find_component_by_name project dep = Some dep_comp"
      and w: "component_type dep_comp = ''Class''"
      and t: "fst ns (name dep_comp) = Some t"
    from f w have "dep_comp \<in> set classes"
      by (simp add: classes_def find_component_by_name_Some)
    then have "t \<in> CI" using t by (rule class_lookup)
    with declared_lookup [OF dn s] declared_lookup [OF dn t] show "?Q (s, t)" by simp
  qed
  have "\<forall>e \<in> set (edges d).
         (fst e \<in> primary_ids d \<and> snd e \<in> primary_ids d)
       \<or> (fst e \<in> primary_ids d \<and> snd e \<in> secondary_ids d)
       \<or> (fst e \<in> secondary_ids d \<and> snd e \<in> primary_ids d)"
    using q2 unfolding d_edges prim sec all_ids by blast
  with disj show ?thesis unfolding d_def by blast
qed

theorem business_logic_edges_touch_class_witness:
  "set (remdups [frmMain, frmMain]) \<subseteq> set [frmMain, frmMain]
   \<and> edges (generate_business_logic_diagram remdups remdups test_project)
       = [(''related0'', ''class0''), (''related1'', ''class0'')]
   \<and> primary_ids (generate_business_logic_diagram remdups remdups test_project) = {''class0''}
   \<and> secondary_ids (generate_business_logic_diagram remdups remdups test_project)
       = {''related0'', ''related1''}
   \<and> primary_ids (generate_business_logic_diagram remdups remdups test_project)
       \<inter> secondary_ids (generate_business_logic_diagram remdups remdups test_project) = {}"
proof -
  have h: "\<forall>xs :: VB6Component list. set (remdups xs) \<subseteq> set xs" by simp
  have ev: "generate_business_logic_diagram remdups remdups test_project
      = \<lparr>nodes = [(''class0'', clsData), (''related0'', frmMain), (''related1'', modUtils)],
         edges = [(''related0'', ''class0''), (''related1'', ''class0'')]\<rparr>"
    by code_simp
  have p: "primary_ids (generate_business_logic_diagram remdups remdups test_project) = {''class0''}"
    unfolding ev by (simp add: primary_ids_def example_defs)
  have s: "secondary_ids (generate_business_logic_diagram remdups remdups test_project)
       = {''related0'', ''related1''}"
    unfolding ev by (simp add: secondary_ids_def example_defs)
  from business_logic_edges_touch_class [OF h, of remdups test_project] ev p s
  show ?thesis by simp
qed

section \<open>The component registry\<close>

text \<open>
  C6. After \<open>parse_vbp_file\<close> all component names of the returned project are pairwise
  distinct up to letter case. Registration of a component line never fails; the component
  is added under the name read from the line if no component has that name up to case,
  and otherwise under that name with the first free suffix \<open>_1\<close>, \<open>_2\<close>, ...
\<close>

theorem parsed_names_unique:
  "(\<forall>project. parse_vbp_file os_path vbp_file_path file = Some project
       \<longrightarrow> distinct (map (\<lambda>c. lower (name c)) (components project)))
   \<and> add_component_from_line os_path p file_info ty
       = (add_component p (unique_name p (line_component_name os_path file_info))
            (line_filename file_info) ty, True)
   \<and> (find_component_by_name p nm = None \<longrightarrow> unique_name p nm = nm)
   \<and> (find_component_by_name p nm \<noteq> None \<longrightarrow>
        (\<exists>k \<ge> 1. unique_name p nm = suffixed nm k
           \<and> find_component_by_name p (suffixed nm k) = None
           \<and> (\<forall>j. 1 \<le> j \<and> j < k \<longrightarrow> find_component_by_name p (suffixed nm j) \<noteq> None)))"
proof (intro conjI allI impI)
  fix project
  assume "parse_vbp_file os_path vbp_file_path file = Some project"
  then obtain lines where p: "project = fold (parse_line os_path) lines
        (new_project\<lparr>project_filename := basename os_path vbp_file_path,
                     project_path := dirname os_path vbp_file_path\<rparr>)"
    by (auto simp: parse_vbp_file_def split: option.splits)
  have "names_unique (new_project\<lparr>project_filename := basename os_path vbp_file_path,
                     project_path := dirname os_path vbp_file_path\<rparr>)"
    by (simp add: names_unique_def new_project_def)
  then have "names_unique project"
    unfolding p by (rule fold_invariant) (rule parse_line_names_unique)
  then show "distinct (map (\<lambda>c. lower (name c)) (components project))"
    by (simp add: names_unique_def)
next
  have "1 \<le> length (split_on CHR '';'' file_info)"
    using split_on_not_Nil [of "CHR '';''" file_info] by (simp add: Suc_le_eq)
  then show "add_component_from_line os_path p file_info ty
       = (add_component p (unique_name p (line_component_name os_path file_info))
            (line_filename file_info) ty, True)"
    by (simp add: add_component_from_line_def)
next
  assume "find_component_by_name p nm = None"
  then show "unique_name p nm = nm" by (simp add: unique_name_def)
next
  assume "find_component_by_name p nm \<noteq> None"
  then have "unique_name p nm = suffixed nm (free_counter p nm 1)"
    by (simp add: unique_name_def)
  with free_counter_free [of p nm 1] free_counter_least [of 1 p nm]
  show "\<exists>k \<ge> 1. unique_name p nm = suffixed nm k
           \<and> find_component_by_name p (suffixed nm k) = None
           \<and> (\<forall>j. 1 \<le> j \<and> j < k \<longrightarrow> find_component_by_name p (suffixed nm j) \<noteq> None)"
    by blast
qed

theorem parsed_names_unique_witness:
  "parse_vbp_file posixpath ''/p/t.vbp'' (Some demo_vbp) = Some demo_project
   \<and> map name (components demo_project) = [''a'', ''A_1'', ''a_1_1'', ''a_2'']
   \<and> distinct (map (\<lambda>c. lower (name c)) (components demo_project))"
proof -
  have ev: "parse_vbp_file posixpath ''/p/t.vbp'' (Some demo_vbp) = Some demo_project"
    by code_simp
  have n: "map name (components demo_project) = [''a'', ''A_1'', ''a_1_1'', ''a_2'']"
    by (simp add: demo_project_def new_component_def)
  from parsed_names_unique [of posixpath "''/p/t.vbp''" "Some demo_vbp"] ev n
  show ?thesis by blast
qed

section \<open>The scan and the export\<close>

text \<open>
  C3. No self-loops: after the scan, no component of the project has its own name among
  its dependencies, even when the name occurs in its own source text.
\<close>

theorem scan_no_self_loops:
  "\<forall>C \<in> set (components (scan files project)). name C \<notin> set (dependencies C)"
  by (auto simp: scan_def scan_component_def split: option.splits)

theorem scan_no_self_loops_witness:
  "references ''A.Show: b.Hide: Dim x As a'' ''a''
   \<and> map (\<lambda>c. (name c, dependencies c)) (components (scan self_files self_project))
       = [(''a'', [''b'']), (''b'', [])]
   \<and> ''a'' \<notin> set [''b'']"
proof -
  have r: "references ''A.Show: b.Hide: Dim x As a'' ''a''"
    by code_simp
  have ev: "map (\<lambda>c. (name c, dependencies c)) (components (scan self_files self_project))
       = [(''a'', [''b'']), (''b'', [])]"
    by code_simp
  have "\<forall>p \<in> set (map (\<lambda>c. (name c, dependencies c)) (components (scan self_files self_project))).
          fst p \<notin> set (snd p)"
    using scan_no_self_loops [of self_files self_project] by simp
  with r ev show ?thesis by simp
qed

text \<open>
  C4, as the code has it. Two invocations of \<open>export_json\<close> over the same finished project
  write, for every component, dependencies lists with the same names, each exactly once
  (the distinct entries of the component's dependencies), and agree on every other field.
  The order of the names is the iteration order of a set: the lists are equal as sequences
  when both invocations iterate sets in the same order, which Python does not promise
  from one run to the next.
\<close>

theorem export_dependencies_up_to_order:
  assumes "set_iteration it1" and "set_iteration it2"
  shows "length (data_components (build_export_data it1 project))
           = length (data_components (build_export_data it2 project))
   \<and> (\<forall>i < length (components project).
         mset (json_dependencies (data_components (build_export_data it1 project) ! i))
           = mset (json_dependencies (data_components (build_export_data it2 project) ! i))
       \<and> distinct (json_dependencies (data_components (build_export_data it1 project) ! i))
       \<and> set (json_dependencies (data_components (build_export_data it1 project) ! i))
           = set (dependencies (components project ! i))
       \<and> data_components (build_export_data it1 project) ! i
           = (data_components (build_export_data it2 project) ! i)
               \<lparr>json_dependencies :=
                  json_dependencies (data_components (build_export_data it1 project) ! i)\<rparr>)
   \<and> (it1 = it2 \<longrightarrow> export_json it1 io_ok project output_file test_mode
                      = export_json it2 io_ok project output_file test_mode)"
proof -
  have m: "mset (it1 xs) = mset (it2 xs)" for xs :: "string list"
  proof -
    from assms have "distinct (it1 xs)" "distinct (it2 xs)" "set (it1 xs) = set (it2 xs)"
      by (simp_all add: set_iteration_def)
    then show ?thesis by (simp add: set_eq_iff_mset_eq_distinct)
  qed
  from assms(1) have d: "distinct (it1 xs)" and s: "set (it1 xs) = set xs" for xs :: "string list"
    by (simp_all add: set_iteration_def)
  show ?thesis
    by (simp add: build_export_data_def component_entry_def Let_def m d s)
qed

theorem export_dependencies_up_to_order_witness:
  "set_iteration (remdups :: string list \<Rightarrow> string list)
   \<and> set_iteration (rev \<circ> remdups :: string list \<Rightarrow> string list)
   \<and> mset (json_dependencies (data_components (build_export_data remdups test_project) ! 0))
       = mset (json_dependencies (data_components (build_export_data (rev \<circ> remdups) test_project) ! 0))
   \<and> json_dependencies (data_components (build_export_data remdups test_project) ! 0)
       = [''frmOptions'', ''modUtils'', ''clsData'']"
proof -
  have l: "0 < length (components test_project)" by (simp add: example_defs)
  have a: "json_dependencies (data_components (build_export_data remdups test_project) ! 0)
       = [''frmOptions'', ''modUtils'', ''clsData'']"
    by (simp add: build_export_data_def component_entry_def example_defs Let_def)
  from export_dependencies_up_to_order
         [OF set_iteration_remdups set_iteration_rev_remdups, of test_project] l
  have "mset (json_dependencies (data_components (build_export_data remdups test_project) ! 0))
       = mset (json_dependencies (data_components (build_export_data (rev \<circ> remdups) test_project) ! 0))"
    by blast
  with a set_iteration_remdups set_iteration_rev_remdups show ?thesis by blast
qed

text \<open>
  C4, as the claim states it (any two invocations write the same dependencies list in the
  same order), fails: with the set iterated in one order and in the reverse order, both
  admissible, the lists written for the test fixture differ.
\<close>

theorem export_order_not_fixed:
  "set_iteration (remdups :: string list \<Rightarrow> string list)
   \<and> set_iteration (rev \<circ> remdups :: string list \<Rightarrow> string list)
   \<and> map json_dependencies (data_components (build_export_data remdups test_project))
       = [[''frmOptions'', ''modUtils'', ''clsData''], [''modUtils'', ''frmMain''], [''clsData''], []]
   \<and> map json_dependencies (data_components (build_export_data (rev \<circ> remdups) test_project))
       = [[''clsData'', ''modUtils'', ''frmOptions''], [''frmMain'', ''modUtils''], [''clsData''], []]
   \<and> export_json remdups True test_project ''out.json'' False
       \<noteq> export_json (rev \<circ> remdups) True test_project ''out.json'' False"
proof -
  have a: "map json_dependencies (data_components (build_export_data remdups test_project))
       = [[''frmOptions'', ''modUtils'', ''clsData''], [''modUtils'', ''frmMain''], [''clsData''], []]"
    by (simp add: build_export_data_def component_entry_def example_defs Let_def)
  have b: "map json_dependencies (data_components (build_export_data (rev \<circ> remdups) test_project))
       = [[''clsData'', ''modUtils'', ''frmOptions''], [''frmMain'', ''modUtils''], [''clsData''], []]"
    by (simp add: build_export_data_def component_entry_def example_defs Let_def)
  from a b have "build_export_data remdups test_project
      \<noteq> build_export_data (rev \<circ> remdups) test_project"
    by auto
  then have "export_json remdups True test_project ''out.json'' False
       \<noteq> export_json (rev \<circ> remdups) True test_project ''out.json'' False"
    by (simp add: export_json_def)
  with a b set_iteration_remdups set_iteration_rev_remdups show ?thesis by blast
qed

end
